theory Spec2Isabelle
  imports Main
begin

section \<open>Python values used by \<open>streamer.py\<close>\<close>

text \<open>
  A text (\<open>str\<close>) is a list of characters, each a code point below 256; the type leaves
  out the rest of Unicode, and with it the white space and the decimal digits above 255
  that \<open>int\<close> also takes.

  Exceptions are values. \<open>ValueError\<close> is raised by \<open>init_last_synced_block_file\<close>
  and by \<open>int\<close> on a text that is no integer literal; \<open>FileNotFoundError\<close> by opening a
  missing file for reading. The adapter is foreign code and may raise anything:
  \<open>AdapterException k\<close> stands for an exception below \<open>Exception\<close>,
  \<open>AdapterBaseException k\<close> for one that is not (\<open>KeyboardInterrupt\<close>, \<open>SystemExit\<close>),
  which \<open>except Exception\<close> does not catch.
\<close>

datatype exn =
    ValueError
  | FileNotFoundError
  | AdapterException nat
  | AdapterBaseException nat

fun is_Exception :: "exn \<Rightarrow> bool" where
  "is_Exception (AdapterBaseException k) = False"
| "is_Exception e = True"

subsection \<open>\<open>str\<close> of an integer\<close>

text \<open>The decimal digit of \<open>d < 10\<close>; it is only ever asked for such a \<open>d\<close>.\<close>

definition digit_char :: "nat \<Rightarrow> char" where
  "digit_char d = ''0123456789'' ! d"

fun str_nat :: "nat \<Rightarrow> string" where
  "str_nat n = (if n < 10 then [digit_char n] else str_nat (n div 10) @ [digit_char (n mod 10)])"

declare str_nat.simps [simp del]

text \<open>Python's \<open>str(i)\<close> for an \<open>int\<close> where the interpreter puts no cap on the digits of
  a conversion: decimal digits, a leading \<open>-\<close> when negative. Integers are unbounded. The
  conversions under a cap follow below, \<open>str_int_capped\<close> and \<open>int_str_capped\<close>.\<close>

definition str_int :: "int \<Rightarrow> string" where
  "str_int i = (if i < 0 then CHR ''-'' # str_nat (nat (- i)) else str_nat (nat i))"

subsection \<open>\<open>int\<close> of a text\<close>

definition is_digit :: "char \<Rightarrow> bool" where
  "is_digit c = (48 \<le> (of_char c :: nat) \<and> (of_char c :: nat) \<le> 57)"

text \<open>The value of a digit; it is only ever applied to a character that \<open>is_digit\<close> accepts.\<close>

definition digit_val :: "char \<Rightarrow> nat" where
  "digit_val c = of_char c - 48"

text \<open>The white space \<open>int\<close> drops around a literal: tab, line feed, vertical tab, form
  feed, carriage return and the blank, and of the code points from 127 to 255 the two that
  are Unicode white space, U+0085 and U+00A0. The separators 0x1C..0x1F are white space
  for \<open>str.isspace\<close>, yet \<open>int\<close> does not drop them: a text that begins or ends
  with one is no literal.\<close>

definition is_space :: "char \<Rightarrow> bool" where
  "is_space c = (c \<in> set [CHR 0x09, CHR 0x0A, CHR 0x0B, CHR 0x0C, CHR 0x0D, CHR 0x20,
                           CHR 0x85, CHR 0xA0])"

definition strip :: "string \<Rightarrow> string" where
  "strip s = rev (dropWhile is_space (rev (dropWhile is_space s)))"

text \<open>The digit part of a decimal literal: digits, with single underscores allowed between
  two digits (Python 3.6 and later). The flag says whether the previous character was a
  digit; the empty text is no literal.\<close>

fun valid_digits :: "bool \<Rightarrow> string \<Rightarrow> bool" where
  "valid_digits prev [] = prev"
| "valid_digits prev (c # cs) =
     (if is_digit c then valid_digits True cs
      else if c = CHR ''_'' \<and> prev then valid_digits False cs
      else False)"

definition digits_value :: "string \<Rightarrow> nat" where
  "digits_value s = foldl (\<lambda>acc c. 10 * acc + digit_val c) 0 (filter is_digit s)"

text \<open>Python's \<open>int(s)\<close> for a \<open>str\<close> in base 10, again with no cap on the digits:
  surrounding white space is dropped, one sign is allowed, and anything else raises
  \<open>ValueError\<close>.\<close>

definition int_str :: "string \<Rightarrow> exn + int" where
  "int_str s =
     (let t = strip s in
      case t of
        [] \<Rightarrow> Inl ValueError
      | c # r \<Rightarrow>
          if c = CHR ''-'' then
            (if valid_digits False r then Inr (- int (digits_value r)) else Inl ValueError)
          else if c = CHR ''+'' then
            (if valid_digits False r then Inr (int (digits_value r)) else Inl ValueError)
          else
            (if valid_digits False t then Inr (int (digits_value t)) else Inl ValueError))"

subsection \<open>The cap on conversions\<close>

text \<open>
  CPython from 3.11 on, and the later releases of 3.7 to 3.10, refuse with \<open>ValueError\<close> to
  turn an \<open>int\<close> of more than \<open>sys.get_int_max_str_digits()\<close> decimal digits into a text, and
  a text of more digits than that into an \<open>int\<close>. The cap is 4300 unless set otherwise; 0
  turns it off (the interpreter takes 0 or a value of at least 640), and the releases
  before it have none, which is \<open>lim = 0\<close> here. Sign, underscores and white space do not
  count; leading zeros do.
\<close>

definition over_cap :: "nat \<Rightarrow> nat \<Rightarrow> bool" where
  "over_cap lim digits = (0 < lim \<and> lim < digits)"

definition str_int_capped :: "nat \<Rightarrow> int \<Rightarrow> exn + string" where
  "str_int_capped lim i =
     (if over_cap lim (length (str_nat (nat \<bar>i\<bar>))) then Inl ValueError else Inr (str_int i))"

definition int_str_capped :: "nat \<Rightarrow> string \<Rightarrow> exn + int" where
  "int_str_capped lim s =
     (if over_cap lim (length (filter is_digit s)) then Inl ValueError else int_str s)"

section \<open>The world outside the streamer\<close>

text \<open>
  The adapter is a parameter of \<open>Streamer\<close>: an object with four methods and a state of its
  own, of any type \<open>'a\<close>. Each method returns normally or raises, and may change the
  adapter's state either way.
\<close>

record 'a streamer_adapter =
  adapter_open :: "'a \<Rightarrow> (exn + unit) \<times> 'a"
  get_current_block_number :: "'a \<Rightarrow> (exn + int) \<times> 'a"
  export_all :: "int \<Rightarrow> int \<Rightarrow> 'a \<Rightarrow> (exn + unit) \<times> 'a"
  adapter_close :: "'a \<Rightarrow> (exn + unit) \<times> 'a"

text \<open>What the streamer does to the outside, in the order it does it, each adapter call
  with its outcome.\<close>

datatype event =
    AdapterOpen "exn + unit"
  | GetCurrentBlockNumber "exn + int"
  | ExportAll int int "exn + unit"
  | WriteLastSyncedBlock int
  | Sleep int
  | AdapterClose "exn + unit"

text \<open>
  Modelled from the spec: \<open>smart_open\<close> of \<open>blockchainetl_common.file_utils\<close> is not among
  the sources. \<open>files\<close> maps a path to the whole text of the regular file there; writing
  replaces the record in full, and reading a missing record fails. The adapter's state is
  apart from the files: an adapter that writes the checkpoint file itself is outside this
  model. \<open>pid\<close> is what \<open>os.getpid()\<close> returns.
\<close>

record 'a world =
  files :: "string \<rightharpoonup> string"
  adapter_state :: 'a
  trace :: "event list"
  pid :: nat


definition write_to_file :: "string \<Rightarrow> string \<Rightarrow> 'a world \<Rightarrow> 'a world" where
  "write_to_file file content w = w\<lparr>files := (files w)(file \<mapsto> content)\<rparr>"

text \<open>\<open>os.remove\<close> with its \<open>OSError\<close> swallowed: a missing file stays missing.\<close>

definition delete_file :: "string \<Rightarrow> 'a world \<Rightarrow> 'a world" where
  "delete_file file w = w\<lparr>files := (files w)(file := None)\<rparr>"

definition write_last_synced_block :: "string \<Rightarrow> int \<Rightarrow> 'a world \<Rightarrow> 'a world" where
  "write_last_synced_block file v w =
     (write_to_file file (str_int v @ [CHR 0x0A]) w)\<lparr>trace := trace w @ [WriteLastSyncedBlock v]\<rparr>"


definition read_last_synced_block :: "string \<Rightarrow> 'a world \<Rightarrow> exn + int" where
  "read_last_synced_block file w =
     (case files w file of None \<Rightarrow> Inl FileNotFoundError | Some content \<Rightarrow> int_str content)"

text \<open>
  The two functions above are the checkpoint file on an interpreter with no cap on
  conversions, and the streamer below runs on such a one. Under a cap of \<open>lim\<close> digits
  \<open>str\<close> may raise before anything is written, and \<open>int\<close> may raise on what is read;
  \<open>lim = 0\<close> gives the two functions above.
\<close>

definition write_last_synced_block_capped ::
  "nat \<Rightarrow> string \<Rightarrow> int \<Rightarrow> 'a world \<Rightarrow> (exn + unit) \<times> 'a world" where
  "write_last_synced_block_capped lim file v w =
     (case str_int_capped lim v of
        Inl e \<Rightarrow> (Inl e, w)
      | Inr text \<Rightarrow>
          (Inr (),
           (write_to_file file (text @ [CHR 0x0A]) w)\<lparr>trace := trace w @ [WriteLastSyncedBlock v]\<rparr>))"

definition read_last_synced_block_capped :: "nat \<Rightarrow> string \<Rightarrow> 'a world \<Rightarrow> exn + int" where
  "read_last_synced_block_capped lim file w =
     (case files w file of
        None \<Rightarrow> Inl FileNotFoundError
      | Some content \<Rightarrow> int_str_capped lim content)"

text \<open>\<open>time.sleep\<close>; \<open>period_seconds\<close> is taken to be non-negative.\<close>

definition sleep :: "int \<Rightarrow> 'a world \<Rightarrow> 'a world" where
  "sleep seconds w = w\<lparr>trace := trace w @ [Sleep seconds]\<rparr>"

text \<open>The four adapter calls, each leaving its outcome in the trace.\<close>

definition call_open :: "'a streamer_adapter \<Rightarrow> 'a world \<Rightarrow> (exn + unit) \<times> 'a world" where
  "call_open ad w =
     (case adapter_open ad (adapter_state w) of
        (r, a) \<Rightarrow> (r, w\<lparr>adapter_state := a, trace := trace w @ [AdapterOpen r]\<rparr>))"

definition call_close :: "'a streamer_adapter \<Rightarrow> 'a world \<Rightarrow> (exn + unit) \<times> 'a world" where
  "call_close ad w =
     (case adapter_close ad (adapter_state w) of
        (r, a) \<Rightarrow> (r, w\<lparr>adapter_state := a, trace := trace w @ [AdapterClose r]\<rparr>))"

definition call_get_current_block_number ::
  "'a streamer_adapter \<Rightarrow> 'a world \<Rightarrow> (exn + int) \<times> 'a world" where
  "call_get_current_block_number ad w =
     (case get_current_block_number ad (adapter_state w) of
        (r, a) \<Rightarrow> (r, w\<lparr>adapter_state := a, trace := trace w @ [GetCurrentBlockNumber r]\<rparr>))"

definition call_export_all ::
  "'a streamer_adapter \<Rightarrow> int \<Rightarrow> int \<Rightarrow> 'a world \<Rightarrow> (exn + unit) \<times> 'a world" where
  "call_export_all ad start_blk end_blk w =
     (case export_all ad start_blk end_blk (adapter_state w) of
        (r, a) \<Rightarrow> (r, w\<lparr>adapter_state := a, trace := trace w @ [ExportAll start_blk end_blk r]\<rparr>))"

section \<open>The streamer\<close>

text \<open>The arguments of \<open>Streamer.__init__\<close>, the adapter apart.\<close>

record config =
  last_synced_block_file :: string
  lag :: int
  start_block :: "int option"
  end_block :: "int option"
  period_seconds :: int
  block_batch_size :: int
  ramp_up_blocks :: int
  retry_errors :: bool
  pid_file :: "string option"

text \<open>The object: the arguments as stored by \<open>__init__\<close> and its two mutable fields.\<close>

record streamer =
  params :: config
  last_synced_block :: int
  processed_blocks_count :: int


text \<open>\<open>_calculate_target_block\<close>.\<close>

definition calculate_target_block :: "streamer \<Rightarrow> int \<Rightarrow> int \<Rightarrow> int \<Rightarrow> int" where
  "calculate_target_block self current_block last_synced batch_size =
     (let target_block = current_block - lag (params self);
          target_block = min target_block (last_synced + batch_size);
          target_block = (case end_block (params self) of
                            Some e \<Rightarrow> min target_block e
                          | None \<Rightarrow> target_block)
      in target_block)"

text \<open>The batch width \<open>_sync_cycle\<close> picks (its first \<open>if\<close>); \<open>self.ramp_up_blocks and ...\<close>
  is false for 0.\<close>

definition cycle_batch_size :: "streamer \<Rightarrow> int" where
  "cycle_batch_size self =
     (if ramp_up_blocks (params self) \<noteq> 0 \<and> ramp_up_blocks (params self) > 0
         \<and> processed_blocks_count self \<le> ramp_up_blocks (params self)
      then 1
      else block_batch_size (params self))"

text \<open>\<open>_sync_cycle\<close>. The calls to \<open>logging\<close> change nothing here and are left out.\<close>

definition sync_cycle ::
  "'a streamer_adapter \<Rightarrow> streamer \<Rightarrow> 'a world \<Rightarrow> (exn + int) \<times> streamer \<times> 'a world" where
  "sync_cycle ad self w =
     (case call_get_current_block_number ad w of
        (Inl e, w1) \<Rightarrow> (Inl e, self, w1)
      | (Inr current_block, w1) \<Rightarrow>
          (let target_block = calculate_target_block self current_block
                                (last_synced_block self) (cycle_batch_size self);
               blocks_to_sync = max (target_block - last_synced_block self) 0
           in if blocks_to_sync \<noteq> 0 then
                (case call_export_all ad (last_synced_block self + 1) target_block w1 of
                   (Inl e, w2) \<Rightarrow> (Inl e, self, w2)
                 | (Inr u, w2) \<Rightarrow>
                     (Inr blocks_to_sync,
                      self\<lparr>last_synced_block := target_block,
                           processed_blocks_count := processed_blocks_count self + blocks_to_sync\<rparr>,
                      write_last_synced_block (last_synced_block_file (params self)) target_block w2))
              else (Inr blocks_to_sync, self, w1)))"

text \<open>
  \<open>_do_stream\<close>. The loop may run forever, so it runs on fuel, one unit for each turn: the
  result \<open>None\<close> says the loop was still running when the fuel ran out, and the state
  returned with it is the state at that moment. \<open>Some (Inr ())\<close> is the loop ending,
  \<open>Some (Inl e)\<close> is \<open>e\<close> raised out of it.
\<close>

fun do_stream ::
  "nat \<Rightarrow> 'a streamer_adapter \<Rightarrow> streamer \<Rightarrow> 'a world
     \<Rightarrow> (exn + unit) option \<times> streamer \<times> 'a world" where
  "do_stream fuel ad self w =
     (if (case end_block (params self) of None \<Rightarrow> True | Some e \<Rightarrow> last_synced_block self < e)
      then (case fuel of
              0 \<Rightarrow> (None, self, w)
            | Suc fuel' \<Rightarrow>
                (case sync_cycle ad self w of
                   (Inl e, self1, w1) \<Rightarrow>
                     if is_Exception e then
                       (if \<not> retry_errors (params self1) then (Some (Inl e), self1, w1)
                        else do_stream fuel' ad self1 (sleep (period_seconds (params self1)) w1))
                     else (Some (Inl e), self1, w1)
                 | (Inr synced_blocks, self1, w1) \<Rightarrow>
                     if synced_blocks \<le> 0
                     then do_stream fuel' ad self1 (sleep (period_seconds (params self1)) w1)
                     else do_stream fuel' ad self1 w1))
      else (Some (Inr ()), self, w))"

declare do_stream.simps [simp del]

text \<open>
  \<open>stream\<close>: the \<open>try\<close> body, then the \<open>finally\<close> block. An exception raised by \<open>close\<close> in
  the \<open>finally\<close> block replaces the one in flight and skips the removal of the pid file.
\<close>

definition stream ::
  "nat \<Rightarrow> 'a streamer_adapter \<Rightarrow> streamer \<Rightarrow> 'a world
     \<Rightarrow> (exn + unit) option \<times> streamer \<times> 'a world" where
  "stream fuel ad self w =
     (case (case call_open ad
                  (case pid_file (params self) of
                     None \<Rightarrow> w
                   | Some pf \<Rightarrow> write_to_file pf (str_int (int (pid w))) w) of
              (Inl e, w1) \<Rightarrow> (Some (Inl e), self, w1)
            | (Inr u, w1) \<Rightarrow> do_stream fuel ad self w1) of
        (None, self2, w2) \<Rightarrow> (None, self2, w2)
      | (Some body, self2, w2) \<Rightarrow>
          (case call_close ad w2 of
             (Inl e, w3) \<Rightarrow> (Some (Inl e), self2, w3)
           | (Inr u, w3) \<Rightarrow>
               (Some body, self2,
                (case pid_file (params self2) of
                   None \<Rightarrow> w3
                 | Some pf \<Rightarrow> delete_file pf w3))))"

section \<open>The spec's target computation\<close>

text \<open>\<open>computeTarget\<close> and \<open>blocksToSync\<close> as the specification words them, to be compared
  with the code.\<close>

definition spec_computeTarget :: "int \<Rightarrow> int \<Rightarrow> int \<Rightarrow> int \<Rightarrow> int option \<Rightarrow> int" where
  "spec_computeTarget currentHead lastSynced lag' batchWidth endBound =
     (case endBound of
        None \<Rightarrow> min (currentHead - lag') (lastSynced + batchWidth)
      | Some b \<Rightarrow> min (min (currentHead - lag') (lastSynced + batchWidth)) b)"

definition spec_blocksToSync :: "int \<Rightarrow> int \<Rightarrow> int" where
  "spec_blocksToSync target lastSynced = max (target - lastSynced) 0"

section \<open>Reading a run\<close>

text \<open>The target of the cycle that starts in \<open>self\<close> when the head query returns \<open>h\<close>:
  the first \<open>let\<close> of \<open>sync_cycle\<close>.\<close>

definition cycle_target :: "streamer \<Rightarrow> int \<Rightarrow> int" where
  "cycle_target self h =
     calculate_target_block self h (last_synced_block self) (cycle_batch_size self)"

text \<open>Reading the trace: the events added between two worlds, the checkpoint values
  written, and the range of the first export.\<close>

definition new_events :: "'a world \<Rightarrow> 'a world \<Rightarrow> event list" where
  "new_events w w' = drop (length (trace w)) (trace w')"

fun written :: "event list \<Rightarrow> int list" where
  "written [] = []"
| "written (WriteLastSyncedBlock v # evs) = v # written evs"
| "written (ev # evs) = written evs"

fun first_export :: "event list \<Rightarrow> (int \<times> int) option" where
  "first_export [] = None"
| "first_export (ExportAll a b r # evs) = Some (a, b)"
| "first_export (ev # evs) = first_export evs"

fun closes :: "event list \<Rightarrow> nat" where
  "closes [] = 0"
| "closes (AdapterClose r # evs) = Suc (closes evs)"
| "closes (ev # evs) = closes evs"

text \<open>What holds of a streamer \<open>s\<close> and a world \<open>v\<close> reached from \<open>self\<close> and \<open>w\<close> by turns of
  the loop of \<open>do_stream\<close>.\<close>

definition reached :: "streamer \<Rightarrow> 'a world \<Rightarrow> streamer \<Rightarrow> 'a world \<Rightarrow> bool" where
  "reached self w s v =
     (params s = params self
      \<and> trace v = trace w @ new_events w v
      \<and> sorted_wrt (<) (last_synced_block self # written (new_events w v))
      \<and> last_synced_block s = last (last_synced_block self # written (new_events w v))
      \<and> files v =
          (if written (new_events w v) = [] then files w
           else (files w)(last_synced_block_file (params self) \<mapsto>
                   str_int (last_synced_block s) @ [CHR 0x0A]))
      \<and> (case first_export (new_events w v) of
            None \<Rightarrow> last_synced_block s = last_synced_block self
          | Some (a, b) \<Rightarrow> a = last_synced_block self + 1)
      \<and> closes (new_events w v) = 0)"

text \<open>The errors raised by head queries and exports, in order, and the events from the last
  head query on (all of them where there is none): the events of the last cycle and
  whatever follows it.\<close>

fun cycle_failures :: "event list \<Rightarrow> exn list" where
  "cycle_failures [] = []"
| "cycle_failures (GetCurrentBlockNumber (Inl e) # evs) = e # cycle_failures evs"
| "cycle_failures (ExportAll a b (Inl e) # evs) = e # cycle_failures evs"
| "cycle_failures (ev # evs) = cycle_failures evs"

fun is_head_query :: "event \<Rightarrow> bool" where
  "is_head_query (GetCurrentBlockNumber r) = True"
| "is_head_query ev = False"

definition last_cycle :: "event list \<Rightarrow> event list" where
  "last_cycle evs = foldl (\<lambda>acc ev. if is_head_query ev then [ev] else acc @ [ev]) [] evs"

section \<open>Concrete inputs\<close>

text \<open>The defaults of \<open>Streamer.__init__\<close>, an adapter whose four methods always give the
  same outcomes, and a world with no files.\<close>

definition default_config :: config where
  "default_config =
     \<lparr>last_synced_block_file = ''last_synced_block.txt'', lag = 0, start_block = None,
      end_block = None, period_seconds = 10, block_batch_size = 10, ramp_up_blocks = 0,
      retry_errors = True, pid_file = None\<rparr>"

definition const_adapter ::
  "(exn + unit) \<Rightarrow> (exn + int) \<Rightarrow> (exn + unit) \<Rightarrow> (exn + unit) \<Rightarrow> unit streamer_adapter" where
  "const_adapter r_open r_head r_export r_close =
     \<lparr>adapter_open = (\<lambda>a. (r_open, a)),
      get_current_block_number = (\<lambda>a. (r_head, a)),
      export_all = (\<lambda>start_blk end_blk a. (r_export, a)),
      adapter_close = (\<lambda>a. (r_close, a))\<rparr>"

definition empty_world :: "unit world" where
  "empty_world = \<lparr>files = Map.empty, adapter_state = (), trace = [], pid = 4242\<rparr>"


text \<open>Scenario A of the specification: \<open>lastSynced = 99\<close>, \<open>lag = 10\<close>, batch width 20, no end
  bound, against a head of 150.\<close>

definition scenario_A :: streamer where
  "scenario_A =
     \<lparr>params = default_config\<lparr>lag := 10, block_batch_size := 20\<rparr>,
      last_synced_block = 99, processed_blocks_count = 0\<rparr>"

text \<open>What \<open>Streamer()\<close> with every default is on a first run, after \<open>__init__\<close>.\<close>

definition fresh_streamer :: streamer where
  "fresh_streamer = \<lparr>params = default_config, last_synced_block = - 1, processed_blocks_count = 0\<rparr>"

text \<open>An adapter that sees a head of 150 and cannot export.\<close>

definition export_fails :: "unit streamer_adapter" where
  "export_fails = const_adapter (Inr ()) (Inr 150) (Inl (AdapterException 1)) (Inr ())"

text \<open>A streamer in its ramp-up phase, and an adapter that works and sees a given head.\<close>

definition ramping_streamer :: streamer where
  "ramping_streamer =
     \<lparr>params = default_config\<lparr>ramp_up_blocks := 3\<rparr>,
      last_synced_block = 2, processed_blocks_count = 3\<rparr>"

definition head_at :: "int \<Rightarrow> unit streamer_adapter" where
  "head_at h = const_adapter (Inr ()) (Inr h) (Inr ()) (Inr ())"

text \<open>The world a first run with every default leaves behind, and a world in which an
  earlier run has left the checkpoint 41, with the streamer that resumes there.\<close>

definition first_run_world :: "unit world" where
  "first_run_world = write_last_synced_block ''last_synced_block.txt'' (- 1) empty_world"



text \<open>Scenario D of the specification: errors are not retried and the third export
  raises. The adapter counts its exports; its \<open>close\<close> has the outcome given.\<close>

definition scenario_D :: streamer where
  "scenario_D = scenario_A\<lparr>params := (params scenario_A)\<lparr>retry_errors := False\<rparr>\<rparr>"

definition third_export_fails :: "(exn + unit) \<Rightarrow> nat streamer_adapter" where
  "third_export_fails r_close =
     \<lparr>adapter_open = (\<lambda>n. (Inr (), n)),
      get_current_block_number = (\<lambda>n. (Inr 150, n)),
      export_all = (\<lambda>start_blk end_blk n.
         (if n = 2 then Inl (AdapterException 1) else Inr (), Suc n)),
      adapter_close = (\<lambda>n. (r_close, n))\<rparr>"

definition counting_world :: "nat world" where
  "counting_world = \<lparr>files = Map.empty, adapter_state = 0, trace = [], pid = 4242\<rparr>"

text \<open>The cap an interpreter has unless told otherwise.\<close>

definition default_cap :: nat where
  "default_cap = 4300"

section \<open>Decimal texts parse back\<close>

lemma of_char_digit_char: "d < 10 \<Longrightarrow> (of_char (digit_char d) :: nat) = 48 + d"
proof -
  assume "d < 10"
  then have "d \<in> {0, 1, 2, 3, 4, 5, 6, 7, 8, 9}"
    by auto
  then show ?thesis
    by (auto simp: digit_char_def)
qed

lemma is_digit_digit_char: "d < 10 \<Longrightarrow> is_digit (digit_char d)"
  by (simp add: is_digit_def of_char_digit_char)

lemma digit_val_digit_char: "d < 10 \<Longrightarrow> digit_val (digit_char d) = d"
  by (simp add: digit_val_def of_char_digit_char)

lemma is_digit_not_space: "is_digit c \<Longrightarrow> \<not> is_space c"
  by (auto simp: is_digit_def is_space_def)

lemma is_digit_not_sign: "is_digit c \<Longrightarrow> c \<noteq> CHR ''-'' \<and> c \<noteq> CHR ''+''"
  by (auto simp: is_digit_def)

lemma str_nat_digits: "list_all is_digit (str_nat n)"
proof (induction n rule: str_nat.induct)
  case (1 n)
  show ?case
  proof (cases "n < 10")
    case True
    then show ?thesis
      by (subst str_nat.simps) (simp add: is_digit_digit_char)
  next
    case False
    with "1" show ?thesis
      by (subst str_nat.simps) (simp add: is_digit_digit_char)
  qed
qed

lemma str_nat_nonempty: "str_nat n \<noteq> []"
  by (subst str_nat.simps) simp

lemma foldl_digits_str_nat:
  "foldl (\<lambda>acc c. 10 * acc + digit_val c) 0 (str_nat n) = n"
proof (induction n rule: str_nat.induct)
  case (1 n)
  show ?case
  proof (cases "n < 10")
    case True
    then show ?thesis
      by (subst str_nat.simps) (simp add: digit_val_digit_char)
  next
    case False
    with "1" show ?thesis
      by (subst str_nat.simps) (simp add: digit_val_digit_char)
  qed
qed

lemma filter_all: "list_all P xs \<Longrightarrow> filter P xs = xs"
  by (induction xs) auto

lemma digits_value_str_nat: "digits_value (str_nat n) = n"
  by (simp add: digits_value_def filter_all [OF str_nat_digits] foldl_digits_str_nat)

lemma valid_digits_all:
  "list_all is_digit cs \<Longrightarrow> valid_digits prev cs = (prev \<or> cs \<noteq> [])"
  by (induction cs arbitrary: prev) auto

lemma valid_digits_str_nat: "valid_digits False (str_nat n)"
  by (simp add: valid_digits_all [OF str_nat_digits] str_nat_nonempty)

lemma str_nat_hd: "\<exists>c cs. str_nat n = c # cs \<and> is_digit c"
  using str_nat_digits [of n] str_nat_nonempty [of n]
  by (cases "str_nat n") auto

lemma dropWhile_nothing: "xs = [] \<or> \<not> P (hd xs) \<Longrightarrow> dropWhile P xs = xs"
  by (cases xs) auto

lemma strip_line:
  assumes "s \<noteq> []" and "\<not> is_space (hd s)" and "\<not> is_space (last s)"
  shows "strip (s @ [CHR 0x0A]) = s"
proof -
  have front: "dropWhile is_space (s @ [CHR 0x0A]) = s @ [CHR 0x0A]"
    using assms by (intro dropWhile_nothing) simp
  have nl: "is_space (CHR 0x0A)"
    by (simp add: is_space_def)
  have rear: "dropWhile is_space (rev s) = rev s"
    using assms by (intro dropWhile_nothing) (simp add: hd_rev)
  show ?thesis
    by (simp add: strip_def front nl rear)
qed

lemma str_nat_last_digit: "is_digit (last (str_nat n))"
  using str_nat_digits [of n] str_nat_nonempty [of n]
  by (simp add: list_all_iff)

lemma int_str_str_int_line: "int_str (str_int v @ [CHR 0x0A]) = Inr v"
proof (cases "v < 0")
  case True
  obtain c cs where cs: "str_nat (nat (- v)) = c # cs" "is_digit c"
    using str_nat_hd by blast
  let ?s = "CHR ''-'' # str_nat (nat (- v))"
  have sp: "\<not> is_space (CHR ''-'')"
    by (simp add: is_space_def)
  have "last ?s = last (str_nat (nat (- v)))"
    by (simp add: str_nat_nonempty)
  then have "\<not> is_space (last ?s)"
    using str_nat_last_digit is_digit_not_space by simp
  then have "strip (?s @ [CHR 0x0A]) = ?s"
    using sp by (intro strip_line) simp_all
  then have "int_str (?s @ [CHR 0x0A]) = Inr (- int (nat (- v)))"
    by (simp add: int_str_def valid_digits_str_nat digits_value_str_nat)
  with True show ?thesis
    by (simp add: str_int_def)
next
  case False
  obtain c cs where cs: "str_nat (nat v) = c # cs" "is_digit c"
    using str_nat_hd by blast
  let ?s = "str_nat (nat v)"
  have "\<not> is_space (hd ?s)" "\<not> is_space (last ?s)"
    using cs str_nat_last_digit [of "nat v"] is_digit_not_space by auto
  then have "strip (?s @ [CHR 0x0A]) = ?s"
    by (intro strip_line) (simp_all add: str_nat_nonempty)
  then have st: "strip ((c # cs) @ [CHR 0x0A]) = c # cs"
    by (simp only: cs(1))
  have v: "valid_digits False (c # cs)" "digits_value (c # cs) = nat v"
    using valid_digits_str_nat [of "nat v"] digits_value_str_nat [of "nat v"] cs by simp_all
  have "int_str ((c # cs) @ [CHR 0x0A]) = Inr (int (nat v))"
    using is_digit_not_sign [OF cs(2)] v
    by (simp add: int_str_def st del: append.simps valid_digits.simps)
  then have "int_str (?s @ [CHR 0x0A]) = Inr (int (nat v))"
    by (simp only: cs(1))
  with False show ?thesis
    by (simp add: str_int_def)
qed




lemma length_str_nat_above: "10 ^ k \<le> n \<Longrightarrow> k < length (str_nat n)"
proof (induction k arbitrary: n)
  case 0
  then show ?case
    using str_nat_nonempty [of n] by (cases "str_nat n") simp_all
next
  case (Suc k)
  have "10 ^ k * 10 \<le> n"
    using Suc.prems by (simp add: mult.commute)
  then have d: "10 ^ k \<le> n div 10"
    by (simp add: less_eq_div_iff_mult_less_eq)
  have "(1 :: nat) \<le> 10 ^ k"
    by simp
  from this d have "1 \<le> n div 10"
    by (rule order_trans)
  then have big: "\<not> n < 10"
    by arith
  note d
  from Suc.IH [OF d] big show ?case
    by (subst str_nat.simps) simp
qed

lemma length_str_nat_below: "0 < k \<Longrightarrow> n < 10 ^ k \<Longrightarrow> length (str_nat n) \<le> k"
proof (induction k arbitrary: n)
  case 0
  then show ?case by simp
next
  case (Suc k)
  show ?case
  proof (cases "n < 10")
    case True
    then show ?thesis
      by (subst str_nat.simps) simp
  next
    case False
    have pos: "0 < k"
    proof (rule ccontr)
      assume "\<not> 0 < k"
      with Suc.prems(2) False show False
        by simp
    qed
    have "n < 10 ^ k * 10"
      using Suc.prems(2) by (simp add: mult.commute)
    then have "n div 10 < 10 ^ k"
      by (simp add: div_less_iff_less_mult)
    from Suc.IH [OF pos this] False show ?thesis
      by (subst str_nat.simps) simp
  qed
qed

lemma digits_of_line: "filter is_digit (str_int v @ [CHR 0x0A]) = str_nat (nat \<bar>v\<bar>)"
proof -
  have "\<not> is_digit (CHR 0x0A)" "\<not> is_digit (CHR ''-'')"
    by (simp_all add: is_digit_def)
  then show ?thesis
    by (simp add: str_int_def filter_all [OF str_nat_digits])
qed

section \<open>The checkpoint file\<close>

lemma read_after_write:
  "read_last_synced_block file (write_last_synced_block file v w) = Inr v"
  by (simp add: read_last_synced_block_def write_last_synced_block_def write_to_file_def
      int_str_str_int_line)

lemma str_int_capped_within:
  assumes "lim = 0 \<or> \<bar>v\<bar> < 10 ^ lim"
  shows "str_int_capped lim v = Inr (str_int v)"
proof (cases "lim = 0")
  case True
  then show ?thesis
    by (simp add: str_int_capped_def over_cap_def)
next
  case False
  with assms have "\<bar>v\<bar> < int (10 ^ lim)"
    by simp
  then have "nat \<bar>v\<bar> < 10 ^ lim"
    by (simp only: nat_less_iff abs_ge_zero)
  with False have "length (str_nat (nat \<bar>v\<bar>)) \<le> lim"
    by (intro length_str_nat_below) simp_all
  then show ?thesis
    by (simp add: str_int_capped_def over_cap_def)
qed

lemma str_int_capped_beyond:
  assumes "0 < lim" and "10 ^ lim \<le> \<bar>v\<bar>"
  shows "str_int_capped lim v = Inl ValueError"
proof -
  from assms(2) have "int (10 ^ lim) \<le> \<bar>v\<bar>"
    by simp
  then have "10 ^ lim \<le> nat \<bar>v\<bar>"
    by (simp only: le_nat_iff abs_ge_zero)
  then have "lim < length (str_nat (nat \<bar>v\<bar>))"
    by (rule length_str_nat_above)
  with assms(1) show ?thesis
    by (simp add: str_int_capped_def over_cap_def)
qed

lemma write_capped_within:
  assumes "lim = 0 \<or> \<bar>v\<bar> < 10 ^ lim"
  shows "write_last_synced_block_capped lim file v w = (Inr (), write_last_synced_block file v w)"
  by (simp add: write_last_synced_block_capped_def write_last_synced_block_def
      str_int_capped_within [OF assms])

lemma write_capped_beyond:
  assumes "0 < lim" and "10 ^ lim \<le> \<bar>v\<bar>"
  shows "write_last_synced_block_capped lim file v w = (Inl ValueError, w)"
  by (simp add: write_last_synced_block_capped_def str_int_capped_beyond [OF assms])

lemma read_capped_line:
  assumes "lim = 0 \<or> \<bar>v\<bar> < 10 ^ lim"
  shows "read_last_synced_block_capped lim file (write_last_synced_block file v w) = Inr v"
proof -
  have "str_int_capped lim v = Inr (str_int v)"
    using assms by (rule str_int_capped_within)
  then have "\<not> over_cap lim (length (str_nat (nat \<bar>v\<bar>)))"
    by (simp add: str_int_capped_def split: if_splits)
  then have "int_str_capped lim (str_int v @ [CHR 0x0A]) = Inr v"
    unfolding int_str_capped_def digits_of_line by (simp add: int_str_str_int_line)
  then show ?thesis
    by (simp add: read_last_synced_block_capped_def write_last_synced_block_def
        write_to_file_def)
qed

lemma default_cap_positive: "0 < default_cap"
  by (simp add: default_cap_def)

lemma minus_one_within: "0 < k \<Longrightarrow> \<bar>- 1 :: int\<bar> < 10 ^ k"
  using one_less_power [of "10 :: int" k] by simp

lemma power_ten_beyond: "(10 :: int) ^ k \<le> \<bar>10 ^ k\<bar>"
  by simp

text \<open>
  C10, as the specification states it: for every integer \<open>v\<close>, writing \<open>v\<close> with
  \<open>write_last_synced_block\<close> and reading the file back gives \<open>v\<close>. Under the cap that
  CPython has by default from 3.11 on, \<open>str\<close> of \<open>10 ^ 4300\<close>, which has 4301 digits, raises
  \<open>ValueError\<close>: nothing is written, and there is nothing to read back.
\<close>

theorem roundtrip_beyond_cap_counterexample:
  "default_cap = 4300
   \<and> fst (write_last_synced_block_capped default_cap ''f'' (10 ^ default_cap) empty_world)
       = Inl ValueError
   \<and> files (snd (write_last_synced_block_capped default_cap ''f'' (10 ^ default_cap) empty_world))
        ''f'' = None
   \<and> read_last_synced_block_capped default_cap ''f''
        (snd (write_last_synced_block_capped default_cap ''f'' (10 ^ default_cap) empty_world))
       = Inl FileNotFoundError"
proof -
  have w: "write_last_synced_block_capped default_cap ''f'' (10 ^ default_cap) empty_world
      = (Inl ValueError, empty_world)"
    using default_cap_positive power_ten_beyond by (rule write_capped_beyond)
  have f: "files empty_world ''f'' = None"
    by (simp add: empty_world_def)
  have r: "read_last_synced_block_capped default_cap ''f'' empty_world = Inl FileNotFoundError"
    by (simp add: read_last_synced_block_capped_def f)
  show ?thesis
    unfolding w fst_conv snd_conv
    using f r default_cap_def by blast
qed

text \<open>
  C10, amended. For every integer \<open>v\<close> of at most \<open>lim\<close> decimal digits, negative ones
  included, where \<open>lim\<close> is the interpreter's cap on conversions (every integer where there
  is no cap, \<open>lim = 0\<close>), writing \<open>v\<close> with \<open>write_last_synced_block\<close> and reading the same
  file with \<open>read_last_synced_block\<close> gives \<open>v\<close> back: the line feed added by the write is
  dropped by the integer parse of the read. An integer of more digits than a cap in force
  makes the write raise \<open>ValueError\<close> and leave the world as it was. With no cap the two
  functions are the ones the streamer is modelled with.
\<close>

theorem write_read_roundtrip_within_cap:
  "(lim = 0 \<or> \<bar>v\<bar> < 10 ^ lim \<longrightarrow>
      fst (write_last_synced_block_capped lim file v w) = Inr ()
      \<and> files (snd (write_last_synced_block_capped lim file v w)) file
          = Some (str_int v @ [CHR 0x0A])
      \<and> read_last_synced_block_capped lim file
          (snd (write_last_synced_block_capped lim file v w)) = Inr v)
   \<and> (0 < lim \<and> 10 ^ lim \<le> \<bar>v\<bar> \<longrightarrow>
      write_last_synced_block_capped lim file v w = (Inl ValueError, w))
   \<and> write_last_synced_block_capped 0 file v w = (Inr (), write_last_synced_block file v w)
   \<and> read_last_synced_block_capped 0 file w = read_last_synced_block file w"
proof (intro conjI impI)
  assume a: "lim = 0 \<or> \<bar>v\<bar> < 10 ^ lim"
  note wr = write_capped_within [OF a, of "file" w]
  show "fst (write_last_synced_block_capped lim file v w) = Inr ()"
    by (simp add: wr)
  show "files (snd (write_last_synced_block_capped lim file v w)) file
          = Some (str_int v @ [CHR 0x0A])"
    by (simp add: wr write_last_synced_block_def write_to_file_def)
  show "read_last_synced_block_capped lim file
          (snd (write_last_synced_block_capped lim file v w)) = Inr v"
    by (simp add: wr read_capped_line [OF a])
next
  assume "0 < lim \<and> 10 ^ lim \<le> \<bar>v\<bar>"
  then show "write_last_synced_block_capped lim file v w = (Inl ValueError, w)"
    by (simp add: write_capped_beyond)
next
  show "write_last_synced_block_capped 0 file v w = (Inr (), write_last_synced_block file v w)"
    by (simp add: write_capped_within)
  show "read_last_synced_block_capped 0 file w = read_last_synced_block file w"
    by (simp add: read_last_synced_block_capped_def read_last_synced_block_def
        int_str_capped_def over_cap_def split: option.splits)
qed

theorem write_read_roundtrip_within_cap_witness:
  "\<bar>- 1 :: int\<bar> < 10 ^ default_cap
   \<and> files (snd (write_last_synced_block_capped default_cap ''f'' (- 1) empty_world)) ''f''
       = Some [CHR ''-'', CHR ''1'', CHR 0x0A]
   \<and> read_last_synced_block_capped default_cap ''f''
        (snd (write_last_synced_block_capped default_cap ''f'' (- 1) empty_world)) = Inr (- 1)
   \<and> 0 < default_cap \<and> (10 :: int) ^ default_cap \<le> \<bar>10 ^ default_cap\<bar>
   \<and> write_last_synced_block_capped default_cap ''f'' (10 ^ default_cap) empty_world
       = (Inl ValueError, empty_world)"
proof -
  note a = minus_one_within [OF default_cap_positive]
  note b = power_ten_beyond [of default_cap]
  have s: "str_int (- 1) = [CHR ''-'', CHR ''1'']"
    by (simp add: str_int_def str_nat.simps digit_char_def)
  show ?thesis
    using a b default_cap_positive
      write_read_roundtrip_within_cap [of default_cap "- 1" "''f''" empty_world]
      write_read_roundtrip_within_cap [of default_cap "10 ^ default_cap" "''f''" empty_world]
    by (simp add: s)
qed

section \<open>One cycle, case by case\<close>

lemma sync_cycle_head_raises:
  assumes "get_current_block_number ad (adapter_state w) = (Inl e, a)"
  shows "sync_cycle ad self w =
           (Inl e, self, w\<lparr>adapter_state := a, trace := trace w @ [GetCurrentBlockNumber (Inl e)]\<rparr>)"
  using assms by (simp add: sync_cycle_def call_get_current_block_number_def)

lemma sync_cycle_nothing:
  assumes "get_current_block_number ad (adapter_state w) = (Inr h, a)"
    and "cycle_target self h \<le> last_synced_block self"
  shows "sync_cycle ad self w =
           (Inr 0, self, w\<lparr>adapter_state := a, trace := trace w @ [GetCurrentBlockNumber (Inr h)]\<rparr>)"
  using assms by (simp add: sync_cycle_def call_get_current_block_number_def cycle_target_def Let_def)

lemma sync_cycle_export_raises:
  assumes "get_current_block_number ad (adapter_state w) = (Inr h, a)"
    and "last_synced_block self < cycle_target self h"
    and "export_all ad (last_synced_block self + 1) (cycle_target self h) a = (Inl e, a')"
  shows "sync_cycle ad self w =
           (Inl e, self,
            w\<lparr>adapter_state := a',
              trace := trace w @ [GetCurrentBlockNumber (Inr h),
                ExportAll (last_synced_block self + 1) (cycle_target self h) (Inl e)]\<rparr>)"
  using assms
  by (simp add: sync_cycle_def call_get_current_block_number_def call_export_all_def
      cycle_target_def Let_def)

lemma sync_cycle_synced:
  assumes "get_current_block_number ad (adapter_state w) = (Inr h, a)"
    and "last_synced_block self < cycle_target self h"
    and "export_all ad (last_synced_block self + 1) (cycle_target self h) a = (Inr u, a')"
  shows "sync_cycle ad self w =
           (Inr (cycle_target self h - last_synced_block self),
            self\<lparr>last_synced_block := cycle_target self h,
                 processed_blocks_count :=
                   processed_blocks_count self + (cycle_target self h - last_synced_block self)\<rparr>,
            w\<lparr>files := (files w)(last_synced_block_file (params self) \<mapsto>
                          str_int (cycle_target self h) @ [CHR 0x0A]),
              adapter_state := a',
              trace := trace w @ [GetCurrentBlockNumber (Inr h),
                ExportAll (last_synced_block self + 1) (cycle_target self h) (Inr ()),
                WriteLastSyncedBlock (cycle_target self h)]\<rparr>)"
  using assms
  by (simp add: sync_cycle_def call_get_current_block_number_def call_export_all_def
      cycle_target_def Let_def write_last_synced_block_def write_to_file_def)


lemma sync_cycle_cases [consumes 1, case_names head_raises idle export_raises synced]:
  assumes "sync_cycle ad self w = (r, self', w')"
  obtains
    e where "r = Inl e" and "self' = self" and "files w' = files w"
      and "trace w' = trace w @ [GetCurrentBlockNumber (Inl e)]"
  | h where "r = Inr 0" and "self' = self" and "files w' = files w"
      and "trace w' = trace w @ [GetCurrentBlockNumber (Inr h)]"
      and "cycle_target self h \<le> last_synced_block self"
  | h e where "r = Inl e" and "self' = self" and "files w' = files w"
      and "trace w' = trace w @ [GetCurrentBlockNumber (Inr h),
             ExportAll (last_synced_block self + 1) (cycle_target self h) (Inl e)]"
      and "last_synced_block self < cycle_target self h"
  | h where "r = Inr (cycle_target self h - last_synced_block self)"
      and "self' = self\<lparr>last_synced_block := cycle_target self h,
             processed_blocks_count :=
               processed_blocks_count self + (cycle_target self h - last_synced_block self)\<rparr>"
      and "files w' = (files w)(last_synced_block_file (params self) \<mapsto>
             str_int (cycle_target self h) @ [CHR 0x0A])"
      and "trace w' = trace w @ [GetCurrentBlockNumber (Inr h),
             ExportAll (last_synced_block self + 1) (cycle_target self h) (Inr ()),
             WriteLastSyncedBlock (cycle_target self h)]"
      and "last_synced_block self < cycle_target self h"
proof -
  obtain rh a where g: "get_current_block_number ad (adapter_state w) = (rh, a)"
    by (cases "get_current_block_number ad (adapter_state w)")
  show thesis
  proof (cases rh)
    case (Inl e)
    have "(r, self', w') = (Inl e, self,
        w\<lparr>adapter_state := a, trace := trace w @ [GetCurrentBlockNumber (Inl e)]\<rparr>)"
      unfolding assms [symmetric] by (rule sync_cycle_head_raises [OF g [unfolded Inl]])
    then show thesis
      by (intro that(1) [of e]) simp_all
  next
    case (Inr h)
    note h = g [unfolded Inr]
    show thesis
    proof (cases "cycle_target self h \<le> last_synced_block self")
      case True
      have "(r, self', w') = (Inr 0, self,
          w\<lparr>adapter_state := a, trace := trace w @ [GetCurrentBlockNumber (Inr h)]\<rparr>)"
        unfolding assms [symmetric] by (rule sync_cycle_nothing [OF h True])
      then show thesis
        using True by (intro that(2) [of h]) simp_all
    next
      case False
      then have lt: "last_synced_block self < cycle_target self h"
        by simp
      obtain re a' where
        x: "export_all ad (last_synced_block self + 1) (cycle_target self h) a = (re, a')"
        by (cases "export_all ad (last_synced_block self + 1) (cycle_target self h) a")
      show thesis
      proof (cases re)
        case (Inl e)
        have "(r, self', w') = (Inl e, self,
            w\<lparr>adapter_state := a',
              trace := trace w @ [GetCurrentBlockNumber (Inr h),
                ExportAll (last_synced_block self + 1) (cycle_target self h) (Inl e)]\<rparr>)"
          unfolding assms [symmetric] by (rule sync_cycle_export_raises [OF h lt x [unfolded Inl]])
        then show thesis
          using lt by (intro that(3) [of e h]) simp_all
      next
        case (Inr u)
        have "(r, self', w') =
           (Inr (cycle_target self h - last_synced_block self),
            self\<lparr>last_synced_block := cycle_target self h,
                 processed_blocks_count :=
                   processed_blocks_count self + (cycle_target self h - last_synced_block self)\<rparr>,
            w\<lparr>files := (files w)(last_synced_block_file (params self) \<mapsto>
                          str_int (cycle_target self h) @ [CHR 0x0A]),
              adapter_state := a',
              trace := trace w @ [GetCurrentBlockNumber (Inr h),
                ExportAll (last_synced_block self + 1) (cycle_target self h) (Inr ()),
                WriteLastSyncedBlock (cycle_target self h)]\<rparr>)"
          unfolding assms [symmetric] by (rule sync_cycle_synced [OF h lt x [unfolded Inr]])
        then show thesis
          using lt by (intro that(4) [of h]) simp_all
      qed
    qed
  qed
qed

lemma do_stream_invariant:
  assumes "do_stream fuel ad self w = (res, self', w')"
    and "I self w"
    and cyc: "\<And>s v r s1 v1. I s v \<Longrightarrow> sync_cycle ad s v = (r, s1, v1) \<Longrightarrow> I s1 v1"
    and slp: "\<And>s v secs. I s v \<Longrightarrow> I s (sleep secs v)"
  shows "I self' w'"
  using assms(1,2)
proof (induction fuel arbitrary: self w)
  case 0
  then show ?case
    by (simp add: do_stream.simps split: if_splits)
next
  case (Suc fuel)
  obtain r s1 v1 where c: "sync_cycle ad self w = (r, s1, v1)"
    by (cases "sync_cycle ad self w")
  have i1: "I s1 v1"
    using cyc [OF Suc.prems(2) c] .
  have i2: "I s1 (sleep (period_seconds (params s1)) v1)"
    using slp [OF i1] .
  show ?case
  proof (cases "case end_block (params self) of None \<Rightarrow> True | Some e \<Rightarrow> last_synced_block self < e")
    case False
    with Suc.prems show ?thesis
      by (simp add: do_stream.simps)
  next
    case True
    show ?thesis
    proof (cases r)
      case (Inl e)
      with True c Suc.prems(1) i1 Suc.IH [OF _ i2] show ?thesis
        by (simp add: do_stream.simps [of "Suc fuel"] split: if_splits)
    next
      case (Inr k)
      with True c Suc.prems(1) Suc.IH [OF _ i1] Suc.IH [OF _ i2] show ?thesis
        by (simp add: do_stream.simps [of "Suc fuel"] split: if_splits)
    qed
  qed
qed

section \<open>The target of a cycle\<close>

lemma calculate_target_block_eq:
  "calculate_target_block self h l b =
     spec_computeTarget h l (lag (params self)) b (end_block (params self))"
  by (simp add: calculate_target_block_def spec_computeTarget_def split: option.splits)

text \<open>
  C1. For every current head, last synced block, lag, batch width and optional end bound,
  \<open>_calculate_target_block\<close> returns the head less the lag, clamped by \<open>min\<close> with the last
  synced block plus the batch width, then by \<open>min\<close> with the end bound when there is one;
  and the count a cycle returns is \<open>max (target - lastSynced) 0\<close> of that target, so it is
  never negative.
\<close>

theorem calculate_target_block_spec:
  "calculate_target_block self h l b =
     spec_computeTarget h l (lag (params self)) b (end_block (params self))
   \<and> calculate_target_block self h l b =
       (case end_block (params self) of
          None \<Rightarrow> min (h - lag (params self)) (l + b)
        | Some bound \<Rightarrow> min (min (h - lag (params self)) (l + b)) bound)
   \<and> 0 \<le> spec_blocksToSync (calculate_target_block self h l b) l
   \<and> (sync_cycle ad self w = (Inr k, self', w') \<longrightarrow>
        (\<exists>head. GetCurrentBlockNumber (Inr head) \<in> set (new_events w w')
           \<and> k = spec_blocksToSync
                  (spec_computeTarget head (last_synced_block self) (lag (params self))
                     (cycle_batch_size self) (end_block (params self)))
                  (last_synced_block self))
        \<and> 0 \<le> k)"
proof (intro conjI impI)
  show "calculate_target_block self h l b =
     spec_computeTarget h l (lag (params self)) b (end_block (params self))"
    by (rule calculate_target_block_eq)
  show "calculate_target_block self h l b =
       (case end_block (params self) of
          None \<Rightarrow> min (h - lag (params self)) (l + b)
        | Some bound \<Rightarrow> min (min (h - lag (params self)) (l + b)) bound)"
    by (simp add: calculate_target_block_def split: option.splits)
  show "0 \<le> spec_blocksToSync (calculate_target_block self h l b) l"
    by (simp add: spec_blocksToSync_def)
next
  assume c: "sync_cycle ad self w = (Inr k, self', w')"
  from c show "\<exists>head. GetCurrentBlockNumber (Inr head) \<in> set (new_events w w')
           \<and> k = spec_blocksToSync
                  (spec_computeTarget head (last_synced_block self) (lag (params self))
                     (cycle_batch_size self) (end_block (params self)))
                  (last_synced_block self)"
    by (cases rule: sync_cycle_cases)
       (auto simp: new_events_def spec_blocksToSync_def cycle_target_def
          calculate_target_block_eq)
  from c show "0 \<le> k"
    by (cases rule: sync_cycle_cases) auto
qed

theorem calculate_target_block_spec_witness:
  "sync_cycle (const_adapter (Inr ()) (Inr 150) (Inr ()) (Inr ())) scenario_A empty_world
     = (Inr 20, scenario_A\<lparr>last_synced_block := 119, processed_blocks_count := 20\<rparr>,
        snd (snd (sync_cycle (const_adapter (Inr ()) (Inr 150) (Inr ()) (Inr ())) scenario_A empty_world)))
   \<and> 20 = spec_blocksToSync (spec_computeTarget 150 99 10 20 None) 99"
  using calculate_target_block_spec [of scenario_A 150 99 20
      "const_adapter (Inr ()) (Inr 150) (Inr ()) (Inr ())" empty_world 20
      "scenario_A\<lparr>last_synced_block := 119, processed_blocks_count := 20\<rparr>"
      "snd (snd (sync_cycle (const_adapter (Inr ()) (Inr 150) (Inr ()) (Inr ())) scenario_A empty_world))"]
  by (simp add: sync_cycle_def call_get_current_block_number_def call_export_all_def
      const_adapter_def scenario_A_def default_config_def calculate_target_block_def
      cycle_batch_size_def spec_blocksToSync_def spec_computeTarget_def)

text \<open>
  C2, as the specification states it: in scenario A the target is 120 and 21 blocks are
  synced. The code gives neither.
\<close>

theorem spec_scenario_A_counterexample:
  "\<not> (calculate_target_block scenario_A 150 (last_synced_block scenario_A)
         (cycle_batch_size scenario_A) = 120
      \<and> fst (sync_cycle (const_adapter (Inr ()) (Inr 150) (Inr ()) (Inr ())) scenario_A empty_world)
          = Inr 21)"
  by (simp add: calculate_target_block_def cycle_batch_size_def scenario_A_def default_config_def)

text \<open>
  C2, amended. For \<open>lastSynced = 99\<close>, a head of 150, \<open>lag = 10\<close>, batch width 20 and no end
  bound, the target is \<open>min 140 119 = 119\<close> and the cycle syncs 20 blocks.
\<close>

theorem scenario_A_target:
  "lag (params scenario_A) = 10 \<and> end_block (params scenario_A) = None
   \<and> last_synced_block scenario_A = 99 \<and> cycle_batch_size scenario_A = 20
   \<and> calculate_target_block scenario_A 150 (last_synced_block scenario_A)
       (cycle_batch_size scenario_A) = 119
   \<and> fst (sync_cycle (const_adapter (Inr ()) (Inr 150) (Inr ()) (Inr ())) scenario_A empty_world)
       = Inr 20"
  by (simp add: sync_cycle_def call_get_current_block_number_def call_export_all_def
      const_adapter_def scenario_A_def default_config_def calculate_target_block_def
      cycle_batch_size_def)

section \<open>The ramp-up phase\<close>

text \<open>
  C3, as the specification states it: with \<open>rampUpBlocks \<ge> 0\<close>, a cycle run while
  \<open>processedBlocksCount \<le> rampUpBlocks\<close> uses a batch width of exactly 1. With the default
  \<open>ramp_up_blocks = 0\<close> and nothing processed yet, both conditions hold and the width is
  \<open>block_batch_size = 10\<close>: the guard \<open>self.ramp_up_blocks and self.ramp_up_blocks > 0\<close> turns
  the ramp-up off.
\<close>

theorem ramp_up_zero_counterexample:
  "0 \<le> ramp_up_blocks (params fresh_streamer)
   \<and> processed_blocks_count fresh_streamer \<le> ramp_up_blocks (params fresh_streamer)
   \<and> cycle_batch_size fresh_streamer = 10
   \<and> cycle_batch_size fresh_streamer \<noteq> 1"
  by (simp add: cycle_batch_size_def fresh_streamer_def default_config_def)

text \<open>
  C3, amended. With \<open>rampUpBlocks > 0\<close>, a cycle run while
  \<open>processedBlocksCount \<le> rampUpBlocks\<close> computes its target with a batch width of exactly 1
  (and so syncs at most one block); with \<open>rampUpBlocks = 0\<close> (or below), or once
  \<open>processedBlocksCount > rampUpBlocks\<close>, the width is \<open>blockBatchSize\<close>.
\<close>

theorem cycle_batch_size_ramp_up:
  "(0 < ramp_up_blocks (params self)
      \<and> processed_blocks_count self \<le> ramp_up_blocks (params self) \<longrightarrow>
      cycle_batch_size self = 1
      \<and> cycle_target self h = calculate_target_block self h (last_synced_block self) 1
      \<and> (sync_cycle ad self w = (Inr k, self', w') \<longrightarrow> k \<le> 1))
   \<and> (ramp_up_blocks (params self) \<le> 0
      \<or> ramp_up_blocks (params self) < processed_blocks_count self \<longrightarrow>
      cycle_batch_size self = block_batch_size (params self)
      \<and> cycle_target self h
          = calculate_target_block self h (last_synced_block self) (block_batch_size (params self)))"
proof (intro conjI impI)
  assume r: "0 < ramp_up_blocks (params self)
      \<and> processed_blocks_count self \<le> ramp_up_blocks (params self)"
  then show one: "cycle_batch_size self = 1"
    by (simp add: cycle_batch_size_def)
  then show "cycle_target self h = calculate_target_block self h (last_synced_block self) 1"
    by (simp add: cycle_target_def)
  have le: "cycle_target self x \<le> last_synced_block self + 1" for x
    by (auto simp: cycle_target_def one calculate_target_block_def Let_def split: option.splits)
  assume "sync_cycle ad self w = (Inr k, self', w')"
  then show "k \<le> 1"
  proof (cases rule: sync_cycle_cases)
    case (synced x)
    with le [of x] show ?thesis by simp
  qed simp_all
next
  assume "ramp_up_blocks (params self) \<le> 0
      \<or> ramp_up_blocks (params self) < processed_blocks_count self"
  then show b: "cycle_batch_size self = block_batch_size (params self)"
    by (auto simp: cycle_batch_size_def)
  then show "cycle_target self h
          = calculate_target_block self h (last_synced_block self) (block_batch_size (params self))"
    by (simp add: cycle_target_def)
qed

theorem cycle_batch_size_ramp_up_witness:
  "0 < ramp_up_blocks (params ramping_streamer)
   \<and> processed_blocks_count ramping_streamer \<le> ramp_up_blocks (params ramping_streamer)
   \<and> cycle_batch_size ramping_streamer = 1
   \<and> fst (sync_cycle (head_at 150) ramping_streamer empty_world) = Inr 1
   \<and> ramp_up_blocks (params fresh_streamer) \<le> 0
   \<and> cycle_batch_size fresh_streamer = 10"
proof -
  obtain r s v where c: "sync_cycle (head_at 150) ramping_streamer empty_world = (r, s, v)"
    by (cases "sync_cycle (head_at 150) ramping_streamer empty_world")
  have r: "r = Inr 1"
    using c
    by (simp add: sync_cycle_def call_get_current_block_number_def call_export_all_def
        head_at_def const_adapter_def ramping_streamer_def default_config_def
        calculate_target_block_def cycle_batch_size_def)
  have h: "0 < ramp_up_blocks (params ramping_streamer)
      \<and> processed_blocks_count ramping_streamer \<le> ramp_up_blocks (params ramping_streamer)"
    by (simp add: ramping_streamer_def default_config_def)
  have z: "ramp_up_blocks (params fresh_streamer) \<le> 0"
    by (simp add: fresh_streamer_def default_config_def)
  show ?thesis
    using h z r c
      cycle_batch_size_ramp_up [where self = ramping_streamer and h = 150
        and ad = "head_at 150" and w = empty_world and k = 1 and self' = s and w' = v]
      cycle_batch_size_ramp_up [where self = fresh_streamer and h = 150
        and ad = "head_at 150" and w = empty_world and k = 1 and self' = s and w' = v]
    by (simp add: fresh_streamer_def default_config_def)
qed

section \<open>A cycle that fails\<close>

lemma written_append: "written (xs @ ys) = written xs @ written ys"
  by (induction xs rule: written.induct) simp_all

lemma new_events_append: "trace w' = trace w @ evs \<Longrightarrow> new_events w w' = evs"
  by (simp add: new_events_def)

lemma sync_cycle_export_fails:
  "sync_cycle export_fails scenario_A empty_world =
     (Inl (AdapterException 1), scenario_A,
      empty_world\<lparr>trace := [GetCurrentBlockNumber (Inr 150),
         ExportAll 100 119 (Inl (AdapterException 1))]\<rparr>)"
  by (simp add: sync_cycle_def call_get_current_block_number_def call_export_all_def
      export_fails_def const_adapter_def scenario_A_def default_config_def
      calculate_target_block_def cycle_batch_size_def empty_world_def)

lemma sync_cycle_head_at:
  "sync_cycle (head_at 150) scenario_A empty_world =
     (Inr 20, scenario_A\<lparr>last_synced_block := 119, processed_blocks_count := 20\<rparr>,
      empty_world\<lparr>files := [''last_synced_block.txt'' \<mapsto> ''119'' @ [CHR 0x0A]],
        trace := [GetCurrentBlockNumber (Inr 150), ExportAll 100 119 (Inr ()),
          WriteLastSyncedBlock 119]\<rparr>)"
  by (simp add: sync_cycle_def call_get_current_block_number_def call_export_all_def
      head_at_def const_adapter_def scenario_A_def default_config_def
      calculate_target_block_def cycle_batch_size_def empty_world_def
      write_last_synced_block_def write_to_file_def str_int_def str_nat.simps digit_char_def)

text \<open>
  C4. In a cycle in which the adapter's head query or its export raises, \<open>_sync_cycle\<close>
  raises that error, no checkpoint is written, and the streamer (\<open>last_synced_block\<close>,
  \<open>processed_blocks_count\<close>) and the files are exactly what they were before the cycle; and
  a cycle that writes the checkpoint does so as its last step, right after an export of that
  very range has returned.
\<close>

theorem failed_cycle_changes_nothing:
  assumes "sync_cycle ad self w = (r, self', w')"
  shows "(GetCurrentBlockNumber (Inl e) \<in> set (new_events w w')
            \<or> ExportAll a b (Inl e) \<in> set (new_events w w') \<longrightarrow>
          r = Inl e \<and> self' = self \<and> files w' = files w
          \<and> written (new_events w w') = [])
       \<and> (r = Inl e \<longrightarrow>
          self' = self \<and> files w' = files w \<and> written (new_events w w') = []
          \<and> (new_events w w' = [GetCurrentBlockNumber (Inl e)]
             \<or> (\<exists>h t. new_events w w' =
                   [GetCurrentBlockNumber (Inr h), ExportAll (last_synced_block self + 1) t (Inl e)])))
       \<and> (WriteLastSyncedBlock v \<in> set (new_events w w') \<longrightarrow>
          (\<exists>h. new_events w w' =
             [GetCurrentBlockNumber (Inr h), ExportAll (last_synced_block self + 1) v (Inr ()),
              WriteLastSyncedBlock v]))"
  using assms
proof (cases rule: sync_cycle_cases)
  case (head_raises x)
  then show ?thesis
    by (simp add: new_events_append [OF head_raises(4)])
next
  case (idle h)
  then show ?thesis
    by (simp add: new_events_append [OF idle(4)])
next
  case (export_raises h x)
  then show ?thesis
    by (simp add: new_events_append [OF export_raises(4)])
next
  case (synced h)
  then show ?thesis
    by (simp add: new_events_append [OF synced(4)])
qed

theorem failed_cycle_changes_nothing_witness:
  "ExportAll 100 119 (Inl (AdapterException 1))
     \<in> set (new_events empty_world (snd (snd (sync_cycle export_fails scenario_A empty_world))))
   \<and> fst (sync_cycle export_fails scenario_A empty_world) = Inl (AdapterException 1)
   \<and> fst (snd (sync_cycle export_fails scenario_A empty_world)) = scenario_A
   \<and> files (snd (snd (sync_cycle export_fails scenario_A empty_world))) = files empty_world
   \<and> WriteLastSyncedBlock 119
     \<in> set (new_events empty_world (snd (snd (sync_cycle (head_at 150) scenario_A empty_world))))
   \<and> new_events empty_world (snd (snd (sync_cycle (head_at 150) scenario_A empty_world)))
     = [GetCurrentBlockNumber (Inr 150), ExportAll 100 119 (Inr ()), WriteLastSyncedBlock 119]"
proof -
  have t0: "trace empty_world = []"
    by (simp add: empty_world_def)
  show ?thesis
    using
      failed_cycle_changes_nothing [OF sync_cycle_export_fails,
        where e = "AdapterException 1" and a = 100 and b = 119 and v = 119]
      failed_cycle_changes_nothing [OF sync_cycle_head_at,
        where e = "AdapterException 1" and a = 100 and b = 119 and v = 119]
    by (simp add: sync_cycle_export_fails sync_cycle_head_at new_events_def t0)
qed

section \<open>Turns of the loop\<close>

lemma first_export_append:
  "first_export (xs @ ys) = (case first_export xs of None \<Rightarrow> first_export ys | Some p \<Rightarrow> Some p)"
  by (induction xs rule: first_export.induct) simp_all

lemma closes_append: "closes (xs @ ys) = closes xs + closes ys"
  by (induction xs rule: closes.induct) simp_all

lemma increasing_le_last:
  "sorted_wrt (<) xs \<Longrightarrow> x \<in> set xs \<Longrightarrow> x \<le> last (xs :: int list)"
proof (induction xs)
  case Nil
  then show ?case by simp
next
  case (Cons y ys)
  show ?case
  proof (cases "ys = []")
    case True
    with Cons.prems show ?thesis by simp
  next
    case False
    then have "last ys \<in> set ys"
      by simp
    with Cons.prems have y: "y \<le> last ys"
      by auto
    have "x \<le> last ys"
    proof (cases "x = y")
      case True
      with y show ?thesis by simp
    next
      case False
      with Cons show ?thesis by simp
    qed
    with \<open>ys \<noteq> []\<close> show ?thesis
      by simp
  qed
qed

lemma increasing_snoc:
  assumes "sorted_wrt (<) (l # ws)" and "last (l # ws) < (t :: int)"
  shows "sorted_wrt (<) (l # ws @ [t])"
proof -
  have "x < t" if "x \<in> set (l # ws)" for x
    using increasing_le_last [OF assms(1) that] assms(2) by simp
  then have "sorted_wrt (<) ((l # ws) @ [t])"
    using assms(1) unfolding sorted_wrt_append by simp
  then show ?thesis
    by simp
qed

lemma reached_refl: "reached self w self w"
  by (simp add: reached_def new_events_def)

lemma new_events_step:
  assumes "trace v = trace w @ new_events w v" and "trace v1 = trace v @ evs"
  shows "new_events w v1 = new_events w v @ evs"
proof -
  have "trace v1 = trace w @ (new_events w v @ evs)"
    using assms by simp
  then show ?thesis
    by (simp add: new_events_def)
qed

lemma reached_params: "reached self w s v \<Longrightarrow> params s = params self"
  and reached_trace: "reached self w s v \<Longrightarrow> trace v = trace w @ new_events w v"
  and reached_increasing:
    "reached self w s v \<Longrightarrow> sorted_wrt (<) (last_synced_block self # written (new_events w v))"
  and reached_last:
    "reached self w s v \<Longrightarrow>
       last_synced_block s = last (last_synced_block self # written (new_events w v))"
  and reached_files:
    "reached self w s v \<Longrightarrow>
       files v = (if written (new_events w v) = [] then files w
          else (files w)(last_synced_block_file (params self) \<mapsto>
                   str_int (last_synced_block s) @ [CHR 0x0A]))"
  and reached_first_export:
    "reached self w s v \<Longrightarrow>
       (case first_export (new_events w v) of
            None \<Rightarrow> last_synced_block s = last_synced_block self
          | Some (a, b) \<Rightarrow> a = last_synced_block self + 1)"
  and reached_closes: "reached self w s v \<Longrightarrow> closes (new_events w v) = 0"
  unfolding reached_def by blast+

lemma reachedI:
  assumes "params s = params self"
    and "trace v = trace w @ new_events w v"
    and "sorted_wrt (<) (last_synced_block self # written (new_events w v))"
    and "last_synced_block s = last (last_synced_block self # written (new_events w v))"
    and "files v = (if written (new_events w v) = [] then files w
          else (files w)(last_synced_block_file (params self) \<mapsto>
                   str_int (last_synced_block s) @ [CHR 0x0A]))"
    and "(case first_export (new_events w v) of
            None \<Rightarrow> last_synced_block s = last_synced_block self
          | Some (a, b) \<Rightarrow> a = last_synced_block self + 1)"
    and "closes (new_events w v) = 0"
  shows "reached self w s v"
  unfolding reached_def using assms by blast

lemma first_export_step:
  assumes "case first_export xs of
            None \<Rightarrow> l = l0
          | Some (a, b) \<Rightarrow> a = l0 + 1"
    and "first_export evs = None \<and> l1 = l \<or> (\<exists>t. first_export evs = Some (l + 1, t))"
  shows "case first_export (xs @ evs) of
            None \<Rightarrow> l1 = l0
          | Some (a, b) \<Rightarrow> a = l0 + (1 :: int)"
  using assms by (auto simp: first_export_append split: option.splits)

lemma reached_extend:
  assumes "reached self w s v"
    and "trace v1 = trace v @ evs" and "files v1 = files v"
    and "written evs = []" and "closes evs = 0"
    and "first_export evs = None
         \<or> (\<exists>t. first_export evs = Some (last_synced_block s + 1, t))"
  shows "reached self w s v1"
proof -
  note t = reached_trace [OF assms(1)]
  have n: "new_events w v1 = new_events w v @ evs"
    by (rule new_events_step [OF t assms(2)])
  have wr: "written (new_events w v1) = written (new_events w v)"
    by (simp add: n written_append assms(4))
  have cl: "closes (new_events w v1) = 0"
    using reached_closes [OF assms(1)] by (simp add: n closes_append assms(5))
  have tr: "trace v1 = trace w @ new_events w v1"
    using t assms(2) n by simp
  have fe: "(case first_export (new_events w v1) of
            None \<Rightarrow> last_synced_block s = last_synced_block self
          | Some (a, b) \<Rightarrow> a = last_synced_block self + 1)"
    unfolding n
    using reached_first_export [OF assms(1)] assms(6)
    by (intro first_export_step [where l = "last_synced_block s"]) simp_all
  show ?thesis
  proof (rule reachedI)
    show "params s = params self"
      by (rule reached_params [OF assms(1)])
    show "trace v1 = trace w @ new_events w v1"
      by (rule tr)
    show "sorted_wrt (<) (last_synced_block self # written (new_events w v1))"
      unfolding wr by (rule reached_increasing [OF assms(1)])
    show "last_synced_block s = last (last_synced_block self # written (new_events w v1))"
      unfolding wr by (rule reached_last [OF assms(1)])
    show "files v1 = (if written (new_events w v1) = [] then files w
          else (files w)(last_synced_block_file (params self) \<mapsto>
                   str_int (last_synced_block s) @ [CHR 0x0A]))"
      unfolding wr assms(3) by (rule reached_files [OF assms(1)])
    show "case first_export (new_events w v1) of
            None \<Rightarrow> last_synced_block s = last_synced_block self
          | Some (a, b) \<Rightarrow> a = last_synced_block self + 1"
      by (rule fe)
    show "closes (new_events w v1) = 0"
      by (rule cl)
  qed
qed

lemma reached_sleep:
  assumes "reached self w s v"
  shows "reached self w s (sleep secs v)"
  using assms
  by (rule reached_extend [where evs = "[Sleep secs]"]) (simp_all add: sleep_def)

lemma reached_cycle:
  assumes "reached self w s v" and "sync_cycle ad s v = (r, s1, v1)"
  shows "reached self w s1 v1"
proof -
  note t = reached_trace [OF assms(1)]
  note p = reached_params [OF assms(1)]
  note inc = reached_increasing [OF assms(1)]
  note l = reached_last [OF assms(1)]
  from assms(2) show ?thesis
  proof (cases rule: sync_cycle_cases)
    case (head_raises e)
    show ?thesis
      unfolding head_raises(2)
      by (rule reached_extend [OF assms(1) head_raises(4) head_raises(3)]) simp_all
  next
    case (idle h)
    show ?thesis
      unfolding idle(2)
      by (rule reached_extend [OF assms(1) idle(4) idle(3)]) simp_all
  next
    case (export_raises h e)
    show ?thesis
      unfolding export_raises(2)
      by (rule reached_extend [OF assms(1) export_raises(4) export_raises(3)]) simp_all
  next
    case (synced h)
    have n: "new_events w v1 = new_events w v @ [GetCurrentBlockNumber (Inr h),
        ExportAll (last_synced_block s + 1) (cycle_target s h) (Inr ()),
        WriteLastSyncedBlock (cycle_target s h)]"
      by (rule new_events_step [OF t synced(4)])
    have wr: "written (new_events w v1) = written (new_events w v) @ [cycle_target s h]"
      by (simp add: n written_append)
    have l1: "last_synced_block s1 = cycle_target s h" and p1: "params s1 = params self"
      using synced(2) p by simp_all
    have "last (last_synced_block self # written (new_events w v)) < cycle_target s h"
      using synced(5) unfolding l .
    then have inc1: "sorted_wrt (<) (last_synced_block self # written (new_events w v1))"
      unfolding wr by (rule increasing_snoc [OF inc])
    have la: "last_synced_block s1 = last (last_synced_block self # written (new_events w v1))"
      unfolding wr l1 by simp
    have fe: "(case first_export (new_events w v1) of
            None \<Rightarrow> last_synced_block s1 = last_synced_block self
          | Some (a, b) \<Rightarrow> a = last_synced_block self + 1)"
      unfolding n
      using reached_first_export [OF assms(1)]
      by (intro first_export_step [where l = "last_synced_block s"]) simp_all
    have fv: "files v1 = (files v)(last_synced_block_file (params self) \<mapsto>
                   str_int (last_synced_block s1) @ [CHR 0x0A])"
      using synced(3) unfolding p l1 .
    have fs: "files v1 = (files w)(last_synced_block_file (params self) \<mapsto>
                   str_int (last_synced_block s1) @ [CHR 0x0A])"
      unfolding fv reached_files [OF assms(1)] by simp
    have ne: "written (new_events w v1) \<noteq> []"
      by (simp add: wr)
    have tr: "trace v1 = trace w @ new_events w v1"
      using t synced(4) n by simp
    have cl: "closes (new_events w v1) = 0"
      using reached_closes [OF assms(1)] unfolding n by (simp add: closes_append)
    show ?thesis
      using p1 tr inc1 la _ fe cl
    proof (rule reachedI)
      show "files v1 = (if written (new_events w v1) = [] then files w
          else (files w)(last_synced_block_file (params self) \<mapsto>
                   str_int (last_synced_block s1) @ [CHR 0x0A]))"
        using ne fs by simp
    qed
  qed
qed

lemma do_stream_reached:
  assumes "do_stream fuel ad self w = (res, self', w')"
  shows "reached self w self' w'"
  using assms reached_refl
proof (rule do_stream_invariant)
  show "reached self w s1 v1" if "reached self w s v" and "sync_cycle ad s v = (r, s1, v1)"
    for s v r s1 v1
    using that by (rule reached_cycle)
  show "reached self w s (sleep secs v)" if "reached self w s v" for s v secs
    using that by (rule reached_sleep)
qed

section \<open>The checkpoint over a run\<close>

lemma read_last_synced_block_files:
  "files v = files w \<Longrightarrow> read_last_synced_block file v = read_last_synced_block file w"
  by (simp add: read_last_synced_block_def)

lemma read_last_synced_block_stored:
  "files v file = Some (str_int c @ [CHR 0x0A]) \<Longrightarrow> read_last_synced_block file v = Inr c"
  by (simp add: read_last_synced_block_def int_str_str_int_line)

lemma reached_read:
  assumes "reached self w s v"
    and "read_last_synced_block (last_synced_block_file (params self)) w
           = Inr (last_synced_block self)"
  shows "read_last_synced_block (last_synced_block_file (params self)) v
           = Inr (last_synced_block s)"
proof (cases "written (new_events w v) = []")
  case True
  have f: "files v = files w"
    by (simp add: reached_files [OF assms(1)] True)
  have "last_synced_block s = last [last_synced_block self]"
    using reached_last [OF assms(1)] unfolding True .
  then have l: "last_synced_block s = last_synced_block self"
    by simp
  show ?thesis
    unfolding read_last_synced_block_files [OF f] l by (rule assms(2))
next
  case False
  have "files v = (files w)(last_synced_block_file (params self) \<mapsto>
                   str_int (last_synced_block s) @ [CHR 0x0A])"
    by (simp add: reached_files [OF assms(1)] False)
  then have "files v (last_synced_block_file (params self))
      = Some (str_int (last_synced_block s) @ [CHR 0x0A])"
    by simp
  then show ?thesis
    by (rule read_last_synced_block_stored)
qed


lemma three_turns:
  "written (new_events first_run_world
      (snd (snd (do_stream 3 (head_at 25) fresh_streamer first_run_world)))) = [9, 19, 25]"
  by (simp add: numeral_3_eq_3 do_stream.simps sync_cycle_def call_get_current_block_number_def
      call_export_all_def head_at_def const_adapter_def fresh_streamer_def default_config_def
      calculate_target_block_def cycle_batch_size_def first_run_world_def empty_world_def
      write_last_synced_block_def write_to_file_def new_events_def sleep_def)

text \<open>
  C5. Over any number of turns of the loop of one run, the checkpoint never goes back: the
  values written, in order and after the value the run started from, form a non-decreasing
  list (every write stores at least what was stored before), the in-memory
  \<open>last_synced_block\<close> ends at the last of them, not below where it started, and the file,
  which held \<open>last_synced_block\<close> at the start, holds it again at the end.
\<close>

theorem checkpoint_monotone:
  assumes "do_stream fuel ad self w = (res, self', w')"
    and "read_last_synced_block (last_synced_block_file (params self)) w
           = Inr (last_synced_block self)"
  shows "sorted (last_synced_block self # written (new_events w w'))
       \<and> last_synced_block self' = last (last_synced_block self # written (new_events w w'))
       \<and> last_synced_block self \<le> last_synced_block self'
       \<and> read_last_synced_block (last_synced_block_file (params self)) w'
           = Inr (last_synced_block self')"
proof -
  note r = do_stream_reached [OF assms(1)]
  note inc = reached_increasing [OF r]
  have "sorted (last_synced_block self # written (new_events w w'))"
    using inc by (rule strict_sorted_imp_sorted)
  moreover have "last_synced_block self \<le> last_synced_block self'"
    unfolding reached_last [OF r] by (rule increasing_le_last [OF inc]) simp
  ultimately show ?thesis
    using reached_last [OF r] reached_read [OF r assms(2)] by simp
qed

theorem checkpoint_monotone_witness:
  "read_last_synced_block (last_synced_block_file (params fresh_streamer)) first_run_world
     = Inr (last_synced_block fresh_streamer)
   \<and> last_synced_block fresh_streamer = - 1
   \<and> written (new_events first_run_world
        (snd (snd (do_stream 3 (head_at 25) fresh_streamer first_run_world)))) = [9, 19, 25]
   \<and> sorted [- 1, 9, 19, 25 :: int]
   \<and> last_synced_block (fst (snd (do_stream 3 (head_at 25) fresh_streamer first_run_world))) = 25
   \<and> read_last_synced_block ''last_synced_block.txt''
        (snd (snd (do_stream 3 (head_at 25) fresh_streamer first_run_world))) = Inr 25"
proof -
  have h: "read_last_synced_block (last_synced_block_file (params fresh_streamer)) first_run_world
     = Inr (last_synced_block fresh_streamer)"
    by (simp add: fresh_streamer_def default_config_def first_run_world_def read_after_write)
  have run: "do_stream 3 (head_at 25) fresh_streamer first_run_world
     = (fst (do_stream 3 (head_at 25) fresh_streamer first_run_world),
        fst (snd (do_stream 3 (head_at 25) fresh_streamer first_run_world)),
        snd (snd (do_stream 3 (head_at 25) fresh_streamer first_run_world)))"
    by simp
  have p: "last_synced_block fresh_streamer = - 1"
    "last_synced_block_file (params fresh_streamer) = ''last_synced_block.txt''"
    by (simp_all add: fresh_streamer_def default_config_def)
  show ?thesis
    using checkpoint_monotone [OF run h] h
    unfolding three_turns p
    by simp
qed

section \<open>Construction\<close>













section \<open>A run that does not retry\<close>

lemma cycle_failures_append:
  "cycle_failures (xs @ ys) = cycle_failures xs @ cycle_failures ys"
  by (induction xs rule: cycle_failures.induct) simp_all

lemma last_cycle_head_query:
  "last_cycle (xs @ GetCurrentBlockNumber r # ys) = last_cycle (GetCurrentBlockNumber r # ys)"
  by (simp add: last_cycle_def)

lemma new_events_trans:
  assumes "trace v = trace w @ new_events w v" and "trace w' = trace v @ new_events v w'"
  shows "new_events w w' = new_events w v @ new_events v w'"
  using assms by (intro new_events_step)

lemma sync_cycle_params:
  assumes "sync_cycle ad s v = (r, s1, v1)"
  shows "params s1 = params s"
  using assms by (cases rule: sync_cycle_cases) simp_all

text \<open>The events of one cycle: none of a cycle that returns is a failure, and those of a
  cycle that raises are the failed call and, before a failed export, the head query.\<close>

lemma sync_cycle_events:
  assumes "sync_cycle ad s v = (r, s1, v1)"
  shows "trace v1 = trace v @ new_events v v1
       \<and> (case r of
            Inr k \<Rightarrow> cycle_failures (new_events v v1) = []
          | Inl e \<Rightarrow> s1 = s
              \<and> (new_events v v1 = [GetCurrentBlockNumber (Inl e)]
                 \<or> (\<exists>h a b. new_events v v1 =
                       [GetCurrentBlockNumber (Inr h), ExportAll a b (Inl e)])))"
  using assms
proof (cases rule: sync_cycle_cases)
  case (head_raises e)
  then show ?thesis
    by (simp add: new_events_append [OF head_raises(4)])
next
  case (idle h)
  then show ?thesis
    by (simp add: new_events_append [OF idle(4)])
next
  case (export_raises h e)
  then show ?thesis
    by (simp add: new_events_append [OF export_raises(4)])
next
  case (synced h)
  then show ?thesis
    by (simp add: new_events_append [OF synced(4)])
qed

lemma sleep_events:
  "trace (sleep secs v) = trace v @ new_events v (sleep secs v)
   \<and> new_events v (sleep secs v) = [Sleep secs]"
  by (simp add: sleep_def new_events_def)

lemma do_stream_no_retry:
  assumes "do_stream fuel ad self w = (res, self', w')"
    and "\<not> retry_errors (params self)"
  shows "\<exists>pre tail. new_events w w' = pre @ tail \<and> cycle_failures pre = []
       \<and> (case res of
            Some (Inl e) \<Rightarrow>
              tail = [GetCurrentBlockNumber (Inl e)]
              \<or> (\<exists>h a b. tail = [GetCurrentBlockNumber (Inr h), ExportAll a b (Inl e)])
          | _ \<Rightarrow> tail = [])"
  using assms
proof (induction fuel arbitrary: self w)
  case 0
  then have "w' = w \<and> (res = None \<or> res = Some (Inr ()))"
    by (auto simp: do_stream.simps split: if_splits)
  then show ?case
    by (auto simp: new_events_def)
next
  case (Suc fuel)
  show ?case
  proof (cases "case end_block (params self) of None \<Rightarrow> True | Some e \<Rightarrow> last_synced_block self < e")
    case False
    with Suc.prems(1) have "w' = w \<and> res = Some (Inr ())"
      by (simp add: do_stream.simps)
    then show ?thesis
      by (simp add: new_events_def)
  next
    case True
    obtain r s1 v1 where c: "sync_cycle ad self w = (r, s1, v1)"
      by (cases "sync_cycle ad self w")
    note ev = sync_cycle_events [OF c]
    have p1: "\<not> retry_errors (params s1)"
      using Suc.prems(2) sync_cycle_params [OF c] by simp
    show ?thesis
    proof (cases r)
      case (Inl e)
      with True c p1 Suc.prems(1) have "res = Some (Inl e)" and "w' = v1"
        by (simp_all add: do_stream.simps [of "Suc fuel"] split: if_splits)
      with ev Inl have "new_events w w' = [] @ new_events w w' \<and> cycle_failures [] = []
          \<and> (case res of
            Some (Inl e) \<Rightarrow>
              new_events w w' = [GetCurrentBlockNumber (Inl e)]
              \<or> (\<exists>h a b. new_events w w' = [GetCurrentBlockNumber (Inr h), ExportAll a b (Inl e)])
          | _ \<Rightarrow> new_events w w' = [])"
        by simp
      then show ?thesis
        by blast
    next
      case (Inr k)
      define v2 where "v2 = (if k \<le> 0 then sleep (period_seconds (params s1)) v1 else v1)"
      have rec: "do_stream fuel ad s1 v2 = (res, self', w')"
        using True c Inr Suc.prems(1)
        by (simp add: do_stream.simps [of "Suc fuel"] v2_def split: if_splits)
      have t1: "trace v1 = trace w @ new_events w v1"
        and f1: "cycle_failures (new_events w v1) = []"
        using ev Inr by simp_all
      have t2: "trace v2 = trace v1 @ new_events v1 v2"
        and f2: "cycle_failures (new_events v1 v2) = []"
        using sleep_events [of "period_seconds (params s1)" v1]
        by (auto simp: v2_def new_events_def)
      have t3: "trace w' = trace v2 @ new_events v2 w'"
        using reached_trace [OF do_stream_reached [OF rec]] .
      have n2: "new_events w v2 = new_events w v1 @ new_events v1 v2"
        using t1 t2 by (rule new_events_trans)
      have t12: "trace v2 = trace w @ new_events w v2"
        using t1 t2 n2 by simp
      have n: "new_events w w' = (new_events w v1 @ new_events v1 v2) @ new_events v2 w'"
        using new_events_trans [OF t12 t3] n2 by simp
      obtain pre tail where pt: "new_events v2 w' = pre @ tail" "cycle_failures pre = []"
        "(case res of
            Some (Inl e) \<Rightarrow>
              tail = [GetCurrentBlockNumber (Inl e)]
              \<or> (\<exists>h a b. tail = [GetCurrentBlockNumber (Inr h), ExportAll a b (Inl e)])
          | _ \<Rightarrow> tail = [])"
        using Suc.IH [OF rec p1] by blast
      have "new_events w w' = ((new_events w v1 @ new_events v1 v2) @ pre) @ tail"
        using n pt(1) by simp
      moreover have "cycle_failures ((new_events w v1 @ new_events v1 v2) @ pre) = []"
        using f1 f2 pt(2) by (simp add: cycle_failures_append)
      ultimately show ?thesis
        using pt(3) by blast
    qed
  qed
qed

lemma call_open_events:
  assumes "call_open ad v = (r, v1)"
  shows "trace v1 = trace v @ [AdapterOpen r]"
  using assms by (auto simp: call_open_def split: prod.splits)

lemma call_close_events:
  assumes "call_close ad v = (r, v1)"
  shows "trace v1 = trace v @ [AdapterClose r]"
  using assms by (auto simp: call_close_def split: prod.splits)

lemma stream_cases [consumes 1, case_names open_raises running finished]:
  assumes "stream fuel ad self w = (res, self', w')"
  obtains
    e rc where "new_events w w' = [AdapterOpen (Inl e), AdapterClose rc]"
  | w1 where "trace w1 = trace w @ [AdapterOpen (Inr ())]"
      and "do_stream fuel ad self w1 = (None, self', w')" and "res = None"
  | w1 body w2 rc where "trace w1 = trace w @ [AdapterOpen (Inr ())]"
      and "do_stream fuel ad self w1 = (Some body, self', w2)"
      and "trace w' = trace w2 @ [AdapterClose rc]"
      and "res = Some (case rc of Inl e2 \<Rightarrow> Inl e2 | Inr u \<Rightarrow> body)"
proof -
  define w0 where "w0 = (case pid_file (params self) of None \<Rightarrow> w
      | Some pf \<Rightarrow> write_to_file pf (str_int (int (pid w))) w)"
  have t0: "trace w0 = trace w"
    by (simp add: w0_def write_to_file_def split: option.splits)
  obtain ro w1 where o: "call_open ad w0 = (ro, w1)"
    by (cases "call_open ad w0")
  have t1: "trace w1 = trace w @ [AdapterOpen ro]"
    using call_open_events [OF o] t0 by simp
  have pidless: "trace (case opt of None \<Rightarrow> v | Some pf \<Rightarrow> delete_file pf v) = trace v"
    for opt and v :: "'a world"
    by (simp add: delete_file_def split: option.splits)
  show thesis
  proof (cases ro)
    case (Inl e)
    obtain rc w3 where cl: "call_close ad w1 = (rc, w3)"
      by (cases "call_close ad w1")
    have "trace w' = trace w3"
      using assms o Inl cl pidless [where opt = "pid_file (params self)" and v = w3]
      by (cases rc) (auto simp: stream_def w0_def [symmetric])
    then have "trace w' = trace w @ [AdapterOpen (Inl e), AdapterClose rc]"
      using call_close_events [OF cl] t1 Inl by simp
    then have "new_events w w' = [AdapterOpen (Inl e), AdapterClose rc]"
      by (rule new_events_append)
    then show thesis
      by (rule that(1))
  next
    case (Inr u)
    obtain r2 s2 w2 where d: "do_stream fuel ad self w1 = (r2, s2, w2)"
      by (cases "do_stream fuel ad self w1")
    show thesis
    proof (cases r2)
      case None
      with assms o Inr d have "res = None" "self' = s2" "w' = w2"
        by (simp_all add: stream_def w0_def [symmetric])
      with d None t1 Inr show thesis
        by (intro that(2) [of w1]) simp_all
    next
      case (Some body)
      obtain rc w3 where cl: "call_close ad w2 = (rc, w3)"
        by (cases "call_close ad w2")
      have "trace w' = trace w3 \<and> self' = s2
          \<and> res = Some (case rc of Inl e2 \<Rightarrow> Inl e2 | Inr u \<Rightarrow> body)"
        using assms o Inr d Some cl pidless [where opt = "pid_file (params s2)" and v = w3]
        by (cases rc) (auto simp: stream_def w0_def [symmetric])
      with d Some t1 Inr call_close_events [OF cl] show thesis
        by (intro that(3) [of w1 body w2 rc]) simp_all
    qed
  qed
qed

lemma do_stream_events:
  assumes "trace w1 = trace w @ [AdapterOpen (Inr ())]"
    and "do_stream fuel ad self w1 = (r, s, w2)"
  shows "trace w2 = trace w @ AdapterOpen (Inr ()) # new_events w1 w2"
  using reached_trace [OF do_stream_reached [OF assms(2)]] assms(1) by simp

lemma scenario_D_run:
  "fst (stream 3 (third_export_fails rc) scenario_D counting_world)
     = Some (Inl (case rc of Inl e2 \<Rightarrow> e2 | Inr u \<Rightarrow> AdapterException 1))
   \<and> new_events counting_world (snd (snd (stream 3 (third_export_fails rc) scenario_D counting_world)))
     = [AdapterOpen (Inr ()),
        GetCurrentBlockNumber (Inr 150), ExportAll 100 119 (Inr ()), WriteLastSyncedBlock 119,
        GetCurrentBlockNumber (Inr 150), ExportAll 120 139 (Inr ()), WriteLastSyncedBlock 139,
        GetCurrentBlockNumber (Inr 150), ExportAll 140 140 (Inl (AdapterException 1)),
        AdapterClose rc]"
  by (cases rc)
     (simp_all add: stream_def call_open_def call_close_def numeral_3_eq_3 do_stream.simps
      sync_cycle_def call_get_current_block_number_def call_export_all_def
      third_export_fails_def scenario_D_def scenario_A_def default_config_def
      calculate_target_block_def cycle_batch_size_def counting_world_def
      write_last_synced_block_def write_to_file_def new_events_def sleep_def)

text \<open>
  C7, as the specification states it: with \<open>retry_errors\<close> false and a cycle that raises,
  \<open>stream\<close> raises that same error. Where \<open>close\<close> raises in the \<open>finally\<close> block, its error
  is the one that leaves \<open>stream\<close>: here the third export raises \<open>AdapterException 1\<close>, \<open>close\<close>
  raises \<open>AdapterException 2\<close>, and \<open>stream\<close> raises the latter.
\<close>

theorem close_raises_counterexample:
  "\<not> retry_errors (params scenario_D)
   \<and> cycle_failures (new_events counting_world
        (snd (snd (stream 3 (third_export_fails (Inl (AdapterException 2))) scenario_D
           counting_world)))) = [AdapterException 1]
   \<and> fst (stream 3 (third_export_fails (Inl (AdapterException 2))) scenario_D counting_world)
       = Some (Inl (AdapterException 2))
   \<and> fst (stream 3 (third_export_fails (Inl (AdapterException 2))) scenario_D counting_world)
       \<noteq> Some (Inl (AdapterException 1))"
  by (simp add: scenario_D_run) (simp add: scenario_D_def scenario_A_def)

text \<open>
  C7, amended. With \<open>retry_errors\<close> false and a cycle that raises \<open>e\<close> (a head query or an
  export that fails), \<open>stream\<close> returns by raising: \<open>close\<close> is called exactly once on the way
  out, as the last thing done; no checkpoint is written from the head query of the failed
  cycle on; \<open>e\<close> is the only error the adapter's head queries and exports raised; and
  \<open>stream\<close> raises \<open>e\<close> when that \<open>close\<close> returns, the error of \<open>close\<close> when it raises.
\<close>

theorem stream_reraises:
  assumes "stream fuel ad self w = (res, self', w')"
    and "\<not> retry_errors (params self)"
    and "cycle_failures (new_events w w') \<noteq> []"
  shows "closes (new_events w w') = 1
       \<and> written (last_cycle (new_events w w')) = []
       \<and> (\<exists>e rc. cycle_failures (new_events w w') = [e]
            \<and> last (new_events w w') = AdapterClose rc
            \<and> res = Some (Inl (case rc of Inl e2 \<Rightarrow> e2 | Inr u \<Rightarrow> e)))"
  using assms(1)
proof (cases rule: stream_cases)
  case (open_raises e rc)
  with assms(3) show ?thesis
    by simp
next
  case (running w1)
  obtain pre where "new_events w1 w' = pre" "cycle_failures pre = []"
    using do_stream_no_retry [OF running(2) assms(2)] by auto
  moreover have "new_events w w' = AdapterOpen (Inr ()) # new_events w1 w'"
    using do_stream_events [OF running(1,2)] by (rule new_events_append)
  ultimately show ?thesis
    using assms(3) by simp
next
  case (finished w1 body w2 rc)
  obtain pre tail where pt: "new_events w1 w2 = pre @ tail" "cycle_failures pre = []"
      "(case Some body of
            Some (Inl e) \<Rightarrow>
              tail = [GetCurrentBlockNumber (Inl e)]
              \<or> (\<exists>h a b. tail = [GetCurrentBlockNumber (Inr h), ExportAll a b (Inl e)])
          | _ \<Rightarrow> tail = [])"
    using do_stream_no_retry [OF finished(2) assms(2)] by blast
  have "trace w' = trace w @ (AdapterOpen (Inr ()) # new_events w1 w2 @ [AdapterClose rc])"
    using do_stream_events [OF finished(1,2)] finished(3) by simp
  then have n: "new_events w w' = AdapterOpen (Inr ()) # pre @ tail @ [AdapterClose rc]"
    using pt(1) by (simp add: new_events_append)
  have c0: "closes pre = 0" "closes tail = 0"
    using reached_closes [OF do_stream_reached [OF finished(2)]] pt(1)
    by (simp_all add: closes_append)
  show ?thesis
  proof (cases body)
    case (Inr u)
    with pt assms(3) n show ?thesis
      by (simp add: cycle_failures_append)
  next
    case (Inl e)
    with pt(3) obtain r rest where tail: "tail = GetCurrentBlockNumber r # rest"
      and w0: "written rest = []" and f: "cycle_failures tail = [e]"
      and nq: "list_all (\<lambda>ev. \<not> is_head_query ev) rest"
      by auto
    have "new_events w w' = (AdapterOpen (Inr ()) # pre)
        @ GetCurrentBlockNumber r # (rest @ [AdapterClose rc])"
      using n tail by simp
    then have "last_cycle (new_events w w') = last_cycle (GetCurrentBlockNumber r # (rest @ [AdapterClose rc]))"
      by (simp only: last_cycle_head_query)
    also have "\<dots> = GetCurrentBlockNumber r # rest @ [AdapterClose rc]"
      using pt(3) Inl tail by (auto simp: last_cycle_def)
    finally have lc: "written (last_cycle (new_events w w')) = []"
      using w0 by (simp add: written_append)
    have "closes (new_events w w') = 1"
      using c0 by (simp add: n closes_append)
    moreover have "cycle_failures (new_events w w') = [e]"
      using pt(2) f by (simp add: n cycle_failures_append)
    moreover have "last (new_events w w') = AdapterClose rc"
      by (simp add: n)
    moreover have "res = Some (Inl (case rc of Inl e2 \<Rightarrow> e2 | Inr u \<Rightarrow> e))"
      using finished(4) Inl by (simp split: sum.splits)
    ultimately show ?thesis
      using lc by blast
  qed
qed

theorem stream_reraises_witness:
  "\<not> retry_errors (params scenario_D)
   \<and> cycle_failures (new_events counting_world
        (snd (snd (stream 3 (third_export_fails (Inr ())) scenario_D counting_world))))
       = [AdapterException 1]
   \<and> fst (stream 3 (third_export_fails (Inr ())) scenario_D counting_world)
       = Some (Inl (AdapterException 1))
   \<and> closes (new_events counting_world
        (snd (snd (stream 3 (third_export_fails (Inr ())) scenario_D counting_world)))) = 1
   \<and> written (new_events counting_world
        (snd (snd (stream 3 (third_export_fails (Inr ())) scenario_D counting_world))))
       = [119, 139]
   \<and> last_cycle (new_events counting_world
        (snd (snd (stream 3 (third_export_fails (Inr ())) scenario_D counting_world))))
       = [GetCurrentBlockNumber (Inr 150), ExportAll 140 140 (Inl (AdapterException 1)),
          AdapterClose (Inr ())]"
proof -
  have nr: "\<not> retry_errors (params scenario_D)"
    by (simp add: scenario_D_def scenario_A_def)
  have run: "stream 3 (third_export_fails (Inr ())) scenario_D counting_world
     = (fst (stream 3 (third_export_fails (Inr ())) scenario_D counting_world),
        fst (snd (stream 3 (third_export_fails (Inr ())) scenario_D counting_world)),
        snd (snd (stream 3 (third_export_fails (Inr ())) scenario_D counting_world)))"
    by simp
  have f: "cycle_failures (new_events counting_world
        (snd (snd (stream 3 (third_export_fails (Inr ())) scenario_D counting_world)))) \<noteq> []"
    by (simp add: scenario_D_run)
  show ?thesis
    using stream_reraises [OF run nr f] nr
    by (simp add: scenario_D_run last_cycle_def)
qed

end
